theory Spec2Isabelle
  imports Main
begin

section \<open>Python strings and the string operations the parser calls\<close>

text \<open>
  A Python \<open>str\<close> is a sequence of Unicode code points; a code point is modelled as a
  natural number and a string as a list of them. \<open>cps\<close> turns an ASCII literal into its
  code points, so that the constants of the source can be written as they are there.
\<close>

type_synonym uchar = nat
type_synonym ustring = "uchar list"

definition cps :: "string \<Rightarrow> ustring" where
  "cps s = map of_char s"

text \<open>
  \<open>str.isspace\<close> on one character, which is also what \<open>\s\<close> matches in a \<open>str\<close> pattern:
  U+0009..U+000D, U+001C..U+0020, U+0085, U+00A0, U+1680, U+2000..U+200A, U+2028, U+2029,
  U+202F, U+205F, U+3000.
\<close>

definition isspace :: "uchar \<Rightarrow> bool" where
  "isspace c \<longleftrightarrow>
     (9 \<le> c \<and> c \<le> 13) \<or> (28 \<le> c \<and> c \<le> 32) \<or> c = 133 \<or> c = 160 \<or> c = 5760 \<or>
     (8192 \<le> c \<and> c \<le> 8202) \<or> c = 8232 \<or> c = 8233 \<or> c = 8239 \<or> c = 8287 \<or> c = 12288"

text \<open>\<open>s.strip()\<close>: leading and trailing whitespace removed.\<close>

definition strip :: "ustring \<Rightarrow> ustring" where
  "strip s = rev (dropWhile isspace (rev (dropWhile isspace s)))"

text \<open>\<open>s.startswith(p)\<close>, \<open>s.endswith(p)\<close> and \<open>p in s\<close>.\<close>

definition startswith :: "ustring \<Rightarrow> ustring \<Rightarrow> bool" where
  "startswith s p \<longleftrightarrow> take (length p) s = p"

definition endswith :: "ustring \<Rightarrow> ustring \<Rightarrow> bool" where
  "endswith s p \<longleftrightarrow> length p \<le> length s \<and> drop (length s - length p) s = p"

fun contains :: "ustring \<Rightarrow> ustring \<Rightarrow> bool" where
  "contains p [] \<longleftrightarrow> p = []"
| "contains p (c # cs) \<longleftrightarrow> startswith (c # cs) p \<or> contains p cs"

text \<open>\<open>sep.join(xs)\<close>.\<close>

fun join :: "ustring \<Rightarrow> ustring list \<Rightarrow> ustring" where
  "join sep [] = []"
| "join sep [x] = x"
| "join sep (x # y # ys) = x @ sep @ join sep (y # ys)"

text \<open>
  \<open>s.replace(old, new)\<close>: the occurrences of \<open>old\<close> are replaced from left to right
  without overlap. With an empty \<open>old\<close> Python puts \<open>new\<close> around every character.
\<close>

fun replace_ne :: "ustring \<Rightarrow> ustring \<Rightarrow> ustring \<Rightarrow> ustring" where
  "replace_ne old new [] = []"
| "replace_ne old new (c # cs) =
     (if startswith (c # cs) old then new @ replace_ne old new (drop (length old - 1) cs)
      else c # replace_ne old new cs)"

definition replace :: "ustring \<Rightarrow> ustring \<Rightarrow> ustring \<Rightarrow> ustring" where
  "replace old new s =
     (if old = [] then new @ concat (map (\<lambda>c. c # new) s) else replace_ne old new s)"

text \<open>
  \<open>s.splitlines()\<close>: the line boundaries are \<open>\n\<close>, \<open>\r\<close>, \<open>\r\n\<close> (one boundary),
  \<open>\x0b\<close>, \<open>\x0c\<close>, \<open>\x1c\<close>, \<open>\x1d\<close>, \<open>\x1e\<close>, \<open>\x85\<close>, U+2028 and U+2029; the
  boundaries are dropped and a text that ends in one has no empty last line.
\<close>

definition is_linebreak :: "uchar \<Rightarrow> bool" where
  "is_linebreak c \<longleftrightarrow>
     c = 10 \<or> c = 11 \<or> c = 12 \<or> c = 13 \<or> c = 28 \<or> c = 29 \<or> c = 30 \<or> c = 133 \<or>
     c = 8232 \<or> c = 8233"

fun splitlines_acc :: "ustring \<Rightarrow> ustring \<Rightarrow> ustring list" where
  "splitlines_acc cur [] = (if cur = [] then [] else [cur])"
| "splitlines_acc cur (c # cs) =
     (if c = 13 then
        (case cs of
           [] \<Rightarrow> cur # splitlines_acc [] cs
         | d # ds \<Rightarrow> if d = 10 then cur # splitlines_acc [] ds else cur # splitlines_acc [] cs)
      else if is_linebreak c then cur # splitlines_acc [] cs
      else splitlines_acc (cur @ [c]) cs)"

definition splitlines :: "ustring \<Rightarrow> ustring list" where
  "splitlines s = splitlines_acc [] s"

text \<open>
  \<open>s.upper()\<close> maps every character through the full upper-case mapping of the
  interpreter's Unicode database (one character may become several) and concatenates the results. The table belongs to the interpreter, not to the
  program, so it is a parameter \<open>U\<close> of everything that calls \<open>upper\<close>.
  \<open>ascii_cased\<close> says what every version of the table does on ASCII, and \<open>upper_ascii\<close> is
  the table that changes nothing else.
\<close>

type_synonym casemap = "uchar \<Rightarrow> ustring"

definition upper :: "casemap \<Rightarrow> ustring \<Rightarrow> ustring" where
  "upper U s = concat (map U s)"

definition upper_ascii :: casemap where
  "upper_ascii c = (if 97 \<le> c \<and> c \<le> 122 then [c - 32] else [c])"

definition ascii_cased :: "casemap \<Rightarrow> bool" where
  "ascii_cased U \<longleftrightarrow> (\<forall>c < 128. U c = upper_ascii c)"

section \<open>Regular expressions as Python's \<open>re\<close> matches them\<close>

text \<open>
  The constructs the program's patterns use: a character class, the empty pattern,
  sequence, ordered alternative, greedy star, \<open>^\<close>, \<open>$\<close> and a named group. \<open>+\<close>, \<open>?\<close>
  and the bounded repeats are written with these.
\<close>

datatype rx =
    Cls "uchar \<Rightarrow> bool"
  | Eps
  | Seq rx rx
  | Alt rx rx
  | Star rx
  | Bol
  | Eol
  | Grp string rx

abbreviation Chr :: "uchar \<Rightarrow> rx" where
  "Chr c \<equiv> Cls (\<lambda>x. x = c)"

abbreviation Plus :: "rx \<Rightarrow> rx" where
  "Plus r \<equiv> Seq r (Star r)"

abbreviation Opt :: "rx \<Rightarrow> rx" where
  "Opt r \<equiv> Alt r Eps"

abbreviation Ws :: rx where
  "Ws \<equiv> Cls isspace"

text \<open>
  A position of the matcher in the subject string: the characters before it (the nearest
  first), the characters from it on, and the groups bound so far.
\<close>

record mstate =
  prev :: ustring
  rest :: ustring
  caps :: "(string \<times> ustring) list"

text \<open>
  \<open>rx_match ml r st\<close> lists the positions at which a match of \<open>r\<close> that starts at \<open>st\<close>
  can end, in the order in which the backtracking matcher tries them: the first one at
  which the rest of the pattern succeeds is the one it takes. \<open>ml\<close> is the flag
  \<open>re.MULTILINE\<close>. A star takes as many iterations as it can and gives them back one by
  one; an iteration that consumes nothing ends the repetition (in all patterns of the
  program an iteration consumes a character).
\<close>

function (sequential) rx_match :: "bool \<Rightarrow> rx \<Rightarrow> mstate \<Rightarrow> mstate list" where
  "rx_match ml (Cls P) st =
     (case rest st of
        [] \<Rightarrow> []
      | c # cs \<Rightarrow> if P c then [st\<lparr>prev := c # prev st, rest := cs\<rparr>] else [])"
| "rx_match ml Eps st = [st]"
| "rx_match ml (Seq a b) st = concat (map (rx_match ml b) (rx_match ml a st))"
| "rx_match ml (Alt a b) st = rx_match ml a st @ rx_match ml b st"
| "rx_match ml (Star a) st =
     concat (map (\<lambda>st'. if length (rest st') < length (rest st)
                          then rx_match ml (Star a) st' else [])
                 (rx_match ml a st)) @ [st]"
| "rx_match ml Bol st =
     (if prev st = [] \<or> (ml \<and> hd (prev st) = 10) then [st] else [])"
| "rx_match ml Eol st =
     (if rest st = [] \<or> (ml \<and> hd (rest st) = 10) \<or> (\<not> ml \<and> rest st = [10])
      then [st] else [])"
| "rx_match ml (Grp n a) st =
     map (\<lambda>st'. st'\<lparr>caps := (n, take (length (rest st) - length (rest st')) (rest st)) # caps st'\<rparr>)
         (rx_match ml a st)"
  by pat_completeness auto
termination
  by (relation "measures [\<lambda>(ml, r, st). size r, \<lambda>(ml, r, st). length (rest st)]") auto

text \<open>
  The match the matcher reports at one position: the first end position in its order;
  with \<open>adv\<close> (the position follows an empty match) the first that consumes something.
\<close>

definition re_at :: "bool \<Rightarrow> rx \<Rightarrow> bool \<Rightarrow> ustring \<Rightarrow> ustring \<Rightarrow> mstate option" where
  "re_at ml r adv p s =
     (case filter (\<lambda>st'. \<not> adv \<or> length (rest st') < length s)
                  (rx_match ml r \<lparr>prev = p, rest = s, caps = []\<rparr>) of
        [] \<Rightarrow> None
      | st' # _ \<Rightarrow> Some st')"

definition re_first :: "bool \<Rightarrow> rx \<Rightarrow> bool \<Rightarrow> ustring \<Rightarrow> ustring \<Rightarrow> nat option" where
  "re_first ml r adv p s = map_option (\<lambda>st'. length s - length (rest st')) (re_at ml r adv p s)"

text \<open>
  \<open>re.sub(r, repl, s)\<close> with a plain replacement string: scan from the left; where the
  pattern matches, write \<open>repl\<close> and go on behind the match; elsewhere copy one character.
  \<open>p\<close> holds the characters already passed, which \<open>^\<close> looks at.
\<close>

function re_sub_from :: "bool \<Rightarrow> rx \<Rightarrow> ustring \<Rightarrow> ustring \<Rightarrow> ustring \<Rightarrow> bool \<Rightarrow> ustring" where
  "re_sub_from ml r repl p s adv =
     (case re_first ml r adv p s of
        Some k \<Rightarrow> repl @ re_sub_from ml r repl (rev (take k s) @ p) (drop k s) (k = 0)
      | None \<Rightarrow>
          (case s of
             [] \<Rightarrow> []
           | c # cs \<Rightarrow> c # re_sub_from ml r repl (c # p) cs False))"
  by pat_completeness auto
termination
proof (relation "measures [\<lambda>(ml, r, repl, p, s, adv). length s,
                          \<lambda>(ml, r, repl, p, s, adv). if adv then 0 else 1]")
  show "wf (measures [\<lambda>(ml, r, repl, p, s, adv). length s,
                      \<lambda>(ml, r, repl, p, s, adv). if adv then 0 else (1::nat)])"
    by simp
next
  fix ml :: bool and r :: rx and repl p s :: ustring and adv :: bool and k :: nat
  assume k: "re_first ml r adv p s = Some k"
  have "k = 0 \<Longrightarrow> \<not> adv"
  proof
    assume "k = 0" and adv
    with k obtain st' where
      "re_at ml r True p s = Some st'" and z: "length s - length (rest st') = 0"
      by (auto simp: re_first_def)
    then obtain xs where
      e: "filter (\<lambda>st'. length (rest st') < length s)
                 (rx_match ml r \<lparr>prev = p, rest = s, caps = []\<rparr>) = st' # xs"
      by (auto simp: re_at_def split: list.splits)
    have "st' \<in> set (filter (\<lambda>st'. length (rest st') < length s)
                           (rx_match ml r \<lparr>prev = p, rest = s, caps = []\<rparr>))"
      unfolding e by simp
    with z show False by simp
  qed
  moreover have "k \<le> length s"
    using k by (auto simp: re_first_def)
  ultimately
  show "((ml, r, repl, rev (take k s) @ p, drop k s, k = 0), (ml, r, repl, p, s, adv))
        \<in> measures [\<lambda>(ml, r, repl, p, s, adv). length s,
                     \<lambda>(ml, r, repl, p, s, adv). if adv then 0 else (1::nat)]"
    by (cases "k = 0") auto
next
  fix ml :: bool and r :: rx and repl p s :: ustring and adv :: bool and c :: uchar and cs :: ustring
  assume "s = c # cs"
  then show "((ml, r, repl, c # p, cs, False), (ml, r, repl, p, s, adv))
        \<in> measures [\<lambda>(ml, r, repl, p, s, adv). length s,
                     \<lambda>(ml, r, repl, p, s, adv). if adv then 0 else (1::nat)]"
    by simp
qed

definition re_sub :: "bool \<Rightarrow> rx \<Rightarrow> ustring \<Rightarrow> ustring \<Rightarrow> ustring" where
  "re_sub ml r repl s = re_sub_from ml r repl [] s False"

text \<open>
  \<open>pattern.match(s)\<close>: a match at the start of \<open>s\<close>, and \<open>m.group(name)\<close>. For a group
  that took no part in the match Python gives \<open>None\<close>; here the result is then the empty
  string. The parser reads the two groups of its speaker pattern only, and a match of
  that pattern binds both (\<open>speaker_groups_bound\<close> below).
\<close>

definition re_match :: "rx \<Rightarrow> ustring \<Rightarrow> mstate option" where
  "re_match r s = re_at False r False [] s"

definition group :: "mstate \<Rightarrow> string \<Rightarrow> ustring" where
  "group m n = (case map_of (caps m) n of Some g \<Rightarrow> g | None \<Rightarrow> [])"

section \<open>The parser of \<open>src/app.py\<close>\<close>

subsection \<open>Text normalisation\<close>

text \<open>
  The patterns of \<open>_preclean_text\<close>, in the order of the source:
  \<open>\*{1,3}\<close>, \<open>^_+\s*\<close> and \<open>\s*_+$\<close> (both with \<open>re.MULTILINE\<close>), \<open>\s*:\s*\<close> and
  \<open>[\t\x0b\x0c\u00A0]+\<close>. The strings \<open>[92, 40]\<close> and \<open>[92, 41]\<close> are a
  backslash followed by an opening and by a closing parenthesis.
\<close>

definition pat_stars :: rx where
  "pat_stars = Seq (Chr 42) (Opt (Seq (Chr 42) (Opt (Chr 42))))"

definition pat_lead_underscores :: rx where
  "pat_lead_underscores = Seq Bol (Seq (Plus (Chr 95)) (Star Ws))"

definition pat_trail_underscores :: rx where
  "pat_trail_underscores = Seq (Star Ws) (Seq (Plus (Chr 95)) Eol)"

definition pat_colon :: rx where
  "pat_colon = Seq (Star Ws) (Seq (Chr 58) (Star Ws))"

definition pat_blanks :: rx where
  "pat_blanks = Plus (Cls (\<lambda>c. c = 9 \<or> c = 11 \<or> c = 12 \<or> c = 160))"

definition preclean_text :: "ustring \<Rightarrow> ustring" where
  "preclean_text text0 =
     (let text1 = replace [13] [] text0;
          text2 = re_sub False pat_stars [] text1;
          text3 = re_sub True pat_lead_underscores [] text2;
          text4 = re_sub True pat_trail_underscores [] text3;
          text5 = replace [92, 41] (cps '')'') (replace [92, 40] (cps ''('') text4);
          text6 = re_sub False pat_colon (cps '': '') text5;
          text7 = re_sub False pat_blanks (cps '' '') text6
      in text7)"

subsection \<open>Line classification\<close>

definition is_section_heading :: "casemap \<Rightarrow> ustring \<Rightarrow> bool" where
  "is_section_heading U line =
     (let u = upper U line
      in startswith u (cps ''SCENA '') \<or> contains (cps ''PERSONAGGI'') u \<or>
         contains (cps ''ANTIPASTO'') u \<or> contains (cps ''PRIMI'') u \<or>
         contains (cps ''DOLCI'') u \<or> contains (cps ''CAFF'') u)"

text \<open>The pattern \<open>^\((?:[^()]|\([^)]*\))*\)\s*\<close> of \<open>_clean_stage_dirs_start\<close>.\<close>

definition pat_paren_group :: rx where
  "pat_paren_group = Seq (Chr 40) (Seq (Star (Cls (\<lambda>c. c \<noteq> 41))) (Chr 41))"

definition pat_stage_dir :: rx where
  "pat_stage_dir =
     Seq Bol (Seq (Chr 40)
       (Seq (Star (Alt (Cls (\<lambda>c. c \<noteq> 40 \<and> c \<noteq> 41)) pat_paren_group))
            (Seq (Chr 41) (Star Ws))))"

definition clean_stage_dirs_start :: "ustring \<Rightarrow> ustring" where
  "clean_stage_dirs_start s = strip (re_sub False pat_stage_dir [] s)"

text \<open>
  The speaker pattern
  \<open>^(?P<who>[A-Z\<dots>][A-Za-z\<dots>' .\-]*(?:\([^)]*\))?)\s*:\s*(?P<what>.*)$\<close>.
  The first class is \<open>A-Z\<close>, U+00C0..U+00D6 and U+00D8..U+00DE; the second is \<open>A-Z\<close>,
  \<open>a-z\<close>, U+00C0..U+00D6, U+00D8..U+00F6, U+00F8..U+00FF, U+2019, the apostrophe, the
  space, the full stop and the hyphen.
\<close>

definition who_first :: "uchar \<Rightarrow> bool" where
  "who_first c \<longleftrightarrow> (65 \<le> c \<and> c \<le> 90) \<or> (192 \<le> c \<and> c \<le> 214) \<or> (216 \<le> c \<and> c \<le> 222)"

definition who_rest :: "uchar \<Rightarrow> bool" where
  "who_rest c \<longleftrightarrow>
     (65 \<le> c \<and> c \<le> 90) \<or> (97 \<le> c \<and> c \<le> 122) \<or> (192 \<le> c \<and> c \<le> 214) \<or>
     (216 \<le> c \<and> c \<le> 246) \<or> (248 \<le> c \<and> c \<le> 255) \<or> c = 8217 \<or> c = 39 \<or> c = 32 \<or>
     c = 46 \<or> c = 45"

definition speaker_pat :: rx where
  "speaker_pat =
     Seq Bol
       (Seq (Grp ''who'' (Seq (Cls who_first) (Seq (Star (Cls who_rest)) (Opt pat_paren_group))))
         (Seq (Star Ws) (Seq (Chr 58) (Seq (Star Ws)
           (Seq (Grp ''what'' (Star (Cls (\<lambda>c. c \<noteq> 10)))) Eol)))))"

text \<open>The patterns \<open>\s*\([^)]*\)\s*\<close> and \<open>\s{2,}\<close> that clean the speaker's name.\<close>

definition pat_name_paren :: rx where
  "pat_name_paren = Seq (Star Ws) (Seq pat_paren_group (Star Ws))"

definition pat_spaces2 :: rx where
  "pat_spaces2 = Seq Ws (Seq Ws (Star Ws))"

subsection \<open>Blocks and the segmenter\<close>

record block =
  character :: ustring
  text' :: ustring

definition SCENA :: ustring where
  "SCENA = cps ''SCENA''"

text \<open>
  The variables of \<open>parse_script_from_pdf\<close> that its loop and the closure \<open>flush\<close>
  share. \<open>current_name\<close> is \<open>None\<close> or a string, tested for truth as Python does.
\<close>

record pstate =
  blocks :: "block list"
  current_name :: "ustring option"
  current_lines :: "ustring list"

definition truthy :: "ustring option \<Rightarrow> bool" where
  "truthy n = (case n of None \<Rightarrow> False | Some s \<Rightarrow> s \<noteq> [])"

definition flush :: "pstate \<Rightarrow> pstate" where
  "flush st =
     (let bs =
        (if truthy (current_name st) \<and> current_lines st \<noteq> [] then
           (let joined = strip (join [10] (current_lines st))
            in if joined \<noteq> []
               then blocks st @
                      [\<lparr>character = (case current_name st of Some n \<Rightarrow> n | None \<Rightarrow> []),
                        text' = joined\<rparr>]
               else blocks st)
         else blocks st)
      in \<lparr>blocks = bs, current_name = None, current_lines = []\<rparr>)"

definition emit_scena :: "ustring \<Rightarrow> pstate \<Rightarrow> pstate" where
  "emit_scena line st = st\<lparr>blocks := blocks st @ [\<lparr>character = SCENA, text' = line\<rparr>]\<rparr>"

text \<open>One turn of the loop over \<open>text.splitlines()\<close>.\<close>

definition process_line :: "casemap \<Rightarrow> pstate \<Rightarrow> ustring \<Rightarrow> pstate" where
  "process_line U st raw_line =
     (let line = strip raw_line in
      if line = [] then
        (if truthy (current_name st) \<and> current_lines st \<noteq> [] \<and> last (current_lines st) \<noteq> []
         then st\<lparr>current_lines := current_lines st @ [[]]\<rparr>
         else st)
      else if is_section_heading U line then emit_scena line (flush st)
      else
        (case re_match speaker_pat line of
           Some m \<Rightarrow>
             (let who0 = strip (re_sub False pat_name_paren [] (group m ''who''));
                  who = re_sub False pat_spaces2 (cps '' '') who0;
                  what = clean_stage_dirs_start (group m ''what'')
              in (flush st)\<lparr>current_name := Some who,
                             current_lines := (if what \<noteq> [] then [what] else [])\<rparr>)
         | None \<Rightarrow>
             if startswith line (cps ''('') \<and> endswith line (cps '')'')
             then emit_scena line (flush st)
             else if truthy (current_name st) then
               (let line2 = clean_stage_dirs_start line
                in if line2 \<noteq> []
                   then st\<lparr>current_lines := current_lines st @ [line2]\<rparr>
                   else st)
             else emit_scena line st))"

subsection \<open>Compaction and the whole parser\<close>

text \<open>
  The second loop: a block of character \<open>SCENA\<close> that follows one is merged into it.
\<close>

definition compact_step :: "block list \<Rightarrow> block \<Rightarrow> block list" where
  "compact_step compact b =
     (if compact \<noteq> [] \<and> character b = SCENA \<and> character (last compact) = SCENA
      then butlast compact @
             [(last compact)\<lparr>text' := strip (text' (last compact) @ [10] @ text' b)\<rparr>]
      else compact @ [b])"

definition compact_blocks :: "block list \<Rightarrow> block list" where
  "compact_blocks bs = foldl compact_step [] bs"

text \<open>
  The text of a page as the extractor gives it: \<open>None\<close> or a string, and
  \<open>p.extract_text() or ''\<close> makes \<open>None\<close> the empty string.
\<close>

definition page_text :: "ustring option \<Rightarrow> ustring" where
  "page_text p = (case p of None \<Rightarrow> [] | Some t \<Rightarrow> t)"

definition segment :: "casemap \<Rightarrow> ustring \<Rightarrow> block list" where
  "segment U text0 =
     blocks (flush (foldl (process_line U)
                          \<lparr>blocks = [], current_name = None, current_lines = []\<rparr>
                          (splitlines text0)))"

definition parse_script_from_pdf :: "casemap \<Rightarrow> ustring option list \<Rightarrow> block list" where
  "parse_script_from_pdf U pages =
     compact_blocks (segment U (preclean_text (join [10] (map page_text pages))))"

section \<open>The parser of \<open>src/app_old.py\<close>\<close>

text \<open>
  The older file has its own copies of \<open>_preclean_text\<close>, \<open>_is_section_heading\<close>,
  \<open>_clean_stage_dirs_start\<close> and \<open>parse_script_from_pdf\<close>; they are transcribed here from
  that file, under the same names with the suffix \<open>_old\<close>. Blocks, the loop state and the
  library functions are those of the previous section.
\<close>

subsection \<open>Text normalisation (older file)\<close>

text \<open>
  The patterns of \<open>_preclean_text\<close>, in the order of the source:
  \<open>\*{1,3}\<close>, \<open>^_+\s*\<close> and \<open>\s*_+$\<close> (both with \<open>re.MULTILINE\<close>), \<open>\s*:\s*\<close> and
  \<open>[\t\x0b\x0c\u00A0]+\<close>. The strings \<open>[92, 40]\<close> and \<open>[92, 41]\<close> are a
  backslash followed by an opening and by a closing parenthesis.
\<close>

definition pat_stars_old :: rx where
  "pat_stars_old = Seq (Chr 42) (Opt (Seq (Chr 42) (Opt (Chr 42))))"

definition pat_lead_underscores_old :: rx where
  "pat_lead_underscores_old = Seq Bol (Seq (Plus (Chr 95)) (Star Ws))"

definition pat_trail_underscores_old :: rx where
  "pat_trail_underscores_old = Seq (Star Ws) (Seq (Plus (Chr 95)) Eol)"

definition pat_colon_old :: rx where
  "pat_colon_old = Seq (Star Ws) (Seq (Chr 58) (Star Ws))"

definition pat_blanks_old :: rx where
  "pat_blanks_old = Plus (Cls (\<lambda>c. c = 9 \<or> c = 11 \<or> c = 12 \<or> c = 160))"

definition preclean_text_old :: "ustring \<Rightarrow> ustring" where
  "preclean_text_old text0 =
     (let text1 = replace [13] [] text0;
          text2 = re_sub False pat_stars_old [] text1;
          text3 = re_sub True pat_lead_underscores_old [] text2;
          text4 = re_sub True pat_trail_underscores_old [] text3;
          text5 = replace [92, 41] (cps '')'') (replace [92, 40] (cps ''('') text4);
          text6 = re_sub False pat_colon_old (cps '': '') text5;
          text7 = re_sub False pat_blanks_old (cps '' '') text6
      in text7)"

subsection \<open>Line classification (older file)\<close>

definition is_section_heading_old :: "casemap \<Rightarrow> ustring \<Rightarrow> bool" where
  "is_section_heading_old U line =
     (let u = upper U line
      in startswith u (cps ''SCENA '') \<or> contains (cps ''PERSONAGGI'') u \<or>
         contains (cps ''ANTIPASTO'') u \<or> contains (cps ''PRIMI'') u \<or>
         contains (cps ''DOLCI'') u \<or> contains (cps ''CAFF'') u)"

text \<open>The pattern \<open>^\((?:[^()]|\([^)]*\))*\)\s*\<close> of \<open>_clean_stage_dirs_start\<close>.\<close>

definition pat_paren_group_old :: rx where
  "pat_paren_group_old = Seq (Chr 40) (Seq (Star (Cls (\<lambda>c. c \<noteq> 41))) (Chr 41))"

definition pat_stage_dir_old :: rx where
  "pat_stage_dir_old =
     Seq Bol (Seq (Chr 40)
       (Seq (Star (Alt (Cls (\<lambda>c. c \<noteq> 40 \<and> c \<noteq> 41)) pat_paren_group_old))
            (Seq (Chr 41) (Star Ws))))"

definition clean_stage_dirs_start_old :: "ustring \<Rightarrow> ustring" where
  "clean_stage_dirs_start_old s = strip (re_sub False pat_stage_dir_old [] s)"

text \<open>
  The speaker pattern
  \<open>^(?P<who>[A-Z\<dots>][A-Za-z\<dots>' .\-]*(?:\([^)]*\))?)\s*:\s*(?P<what>.*)$\<close>.
  The first class is \<open>A-Z\<close>, U+00C0..U+00D6 and U+00D8..U+00DE; the second is \<open>A-Z\<close>,
  \<open>a-z\<close>, U+00C0..U+00D6, U+00D8..U+00F6, U+00F8..U+00FF, U+2019, the apostrophe, the
  space, the full stop and the hyphen.
\<close>

definition who_first_old :: "uchar \<Rightarrow> bool" where
  "who_first_old c \<longleftrightarrow> (65 \<le> c \<and> c \<le> 90) \<or> (192 \<le> c \<and> c \<le> 214) \<or> (216 \<le> c \<and> c \<le> 222)"

definition who_rest_old :: "uchar \<Rightarrow> bool" where
  "who_rest_old c \<longleftrightarrow>
     (65 \<le> c \<and> c \<le> 90) \<or> (97 \<le> c \<and> c \<le> 122) \<or> (192 \<le> c \<and> c \<le> 214) \<or>
     (216 \<le> c \<and> c \<le> 246) \<or> (248 \<le> c \<and> c \<le> 255) \<or> c = 8217 \<or> c = 39 \<or> c = 32 \<or>
     c = 46 \<or> c = 45"

definition speaker_pat_old :: rx where
  "speaker_pat_old =
     Seq Bol
       (Seq (Grp ''who'' (Seq (Cls who_first_old) (Seq (Star (Cls who_rest_old)) (Opt pat_paren_group_old))))
         (Seq (Star Ws) (Seq (Chr 58) (Seq (Star Ws)
           (Seq (Grp ''what'' (Star (Cls (\<lambda>c. c \<noteq> 10)))) Eol)))))"

text \<open>The patterns \<open>\s*\([^)]*\)\s*\<close> and \<open>\s{2,}\<close> that clean the speaker's name.\<close>

definition pat_name_paren_old :: rx where
  "pat_name_paren_old = Seq (Star Ws) (Seq pat_paren_group_old (Star Ws))"

definition pat_spaces2_old :: rx where
  "pat_spaces2_old = Seq Ws (Seq Ws (Star Ws))"

subsection \<open>The segmenter (older file)\<close>

definition flush_old :: "pstate \<Rightarrow> pstate" where
  "flush_old st =
     (let bs =
        (if truthy (current_name st) \<and> current_lines st \<noteq> [] then
           (let joined = strip (join [10] (current_lines st))
            in if joined \<noteq> []
               then blocks st @
                      [\<lparr>character = (case current_name st of Some n \<Rightarrow> n | None \<Rightarrow> []),
                        text' = joined\<rparr>]
               else blocks st)
         else blocks st)
      in \<lparr>blocks = bs, current_name = None, current_lines = []\<rparr>)"

definition emit_scena_old :: "ustring \<Rightarrow> pstate \<Rightarrow> pstate" where
  "emit_scena_old line st = st\<lparr>blocks := blocks st @ [\<lparr>character = SCENA, text' = line\<rparr>]\<rparr>"

text \<open>One turn of the loop over \<open>text.splitlines()\<close>.\<close>

definition process_line_old :: "casemap \<Rightarrow> pstate \<Rightarrow> ustring \<Rightarrow> pstate" where
  "process_line_old U st raw_line =
     (let line = strip raw_line in
      if line = [] then
        (if truthy (current_name st) \<and> current_lines st \<noteq> [] \<and> last (current_lines st) \<noteq> []
         then st\<lparr>current_lines := current_lines st @ [[]]\<rparr>
         else st)
      else if is_section_heading_old U line then emit_scena_old line (flush_old st)
      else
        (case re_match speaker_pat_old line of
           Some m \<Rightarrow>
             (let who0 = strip (re_sub False pat_name_paren_old [] (group m ''who''));
                  who = re_sub False pat_spaces2_old (cps '' '') who0;
                  what = clean_stage_dirs_start_old (group m ''what'')
              in (flush_old st)\<lparr>current_name := Some who,
                             current_lines := (if what \<noteq> [] then [what] else [])\<rparr>)
         | None \<Rightarrow>
             if startswith line (cps ''('') \<and> endswith line (cps '')'')
             then emit_scena_old line (flush_old st)
             else if truthy (current_name st) then
               (let line2 = clean_stage_dirs_start_old line
                in if line2 \<noteq> []
                   then st\<lparr>current_lines := current_lines st @ [line2]\<rparr>
                   else st)
             else emit_scena_old line st))"

subsection \<open>Compaction and the whole parser (older file)\<close>

text \<open>
  The second loop: a block of character \<open>SCENA\<close> that follows one is merged into it.
\<close>

definition compact_step_old :: "block list \<Rightarrow> block \<Rightarrow> block list" where
  "compact_step_old compact b =
     (if compact \<noteq> [] \<and> character b = SCENA \<and> character (last compact) = SCENA
      then butlast compact @
             [(last compact)\<lparr>text' := strip (text' (last compact) @ [10] @ text' b)\<rparr>]
      else compact @ [b])"

definition compact_blocks_old :: "block list \<Rightarrow> block list" where
  "compact_blocks_old bs = foldl compact_step_old [] bs"

definition segment_old :: "casemap \<Rightarrow> ustring \<Rightarrow> block list" where
  "segment_old U text0 =
     blocks (flush_old (foldl (process_line_old U)
                          \<lparr>blocks = [], current_name = None, current_lines = []\<rparr>
                          (splitlines text0)))"

definition parse_script_from_pdf_old :: "casemap \<Rightarrow> ustring option list \<Rightarrow> block list" where
  "parse_script_from_pdf_old U pages =
     compact_blocks_old (segment_old U (preclean_text_old (join [10] (map page_text pages))))"

section \<open>Properties of block lists\<close>

text \<open>Two neighbouring blocks both carry the character \<open>SCENA\<close>.\<close>

fun adjacent_scena :: "block list \<Rightarrow> bool" where
  "adjacent_scena [] \<longleftrightarrow> False"
| "adjacent_scena [b] \<longleftrightarrow> False"
| "adjacent_scena (a # b # bs) \<longleftrightarrow>
     (character a = SCENA \<and> character b = SCENA) \<or> adjacent_scena (b # bs)"

text \<open>Every block has a text that is not empty after stripping.\<close>

definition texts_nonempty :: "block list \<Rightarrow> bool" where
  "texts_nonempty bs \<longleftrightarrow> list_all (\<lambda>b. strip (text' b) \<noteq> []) bs"





text \<open>Every match of the pattern binds the group \<open>n\<close>.\<close>

fun binds :: "string \<Rightarrow> rx \<Rightarrow> bool" where
  "binds n (Cls P) \<longleftrightarrow> False"
| "binds n Eps \<longleftrightarrow> False"
| "binds n (Seq a b) \<longleftrightarrow> binds n a \<or> binds n b"
| "binds n (Alt a b) \<longleftrightarrow> binds n a \<and> binds n b"
| "binds n (Star a) \<longleftrightarrow> False"
| "binds n Bol \<longleftrightarrow> False"
| "binds n Eol \<longleftrightarrow> False"
| "binds n (Grp g a) \<longleftrightarrow> n = g \<or> binds n a"






section \<open>Facts about \<open>strip\<close>\<close>

lemma strip_eq_Nil_iff: "strip s = [] \<longleftrightarrow> (\<forall>c \<in> set s. isspace c)"
proof
  assume "strip s = []"
  then have "dropWhile isspace (rev (dropWhile isspace s)) = []"
    by (simp add: strip_def)
  then have "\<forall>c \<in> set (dropWhile isspace s). isspace c"
    by simp
  then have "dropWhile isspace s = []"
    using hd_dropWhile [of isspace s] hd_in_set [of "dropWhile isspace s"] by blast
  then show "\<forall>c \<in> set s. isspace c"
    by simp
next
  assume "\<forall>c \<in> set s. isspace c"
  then show "strip s = []"
    by (auto simp: strip_def dest: set_dropWhileD)
qed

lemma strip_Nil: "strip [] = []"
  by (simp add: strip_def)

lemma strip_no_change:
  assumes "s \<noteq> []" "\<not> isspace (hd s)" "\<not> isspace (last s)"
  shows "strip s = s"
proof -
  from assms have a: "dropWhile isspace s = s"
    by (cases s) auto
  from assms have "rev s \<noteq> []" "\<not> isspace (hd (rev s))"
    by (simp_all add: hd_rev)
  then have "dropWhile isspace (rev s) = rev s"
    by (cases "rev s") auto
  with a show ?thesis
    by (simp add: strip_def)
qed

lemma rev_dropWhile_rev_Cons:
  assumes "\<not> P x"
  shows "\<exists>ys. rev (dropWhile P (rev (x # xs))) = x # ys"
proof (cases "\<forall>y \<in> set xs. P y")
  case True
  with assms show ?thesis by (simp add: dropWhile_append)
next
  case False
  then have "rev (dropWhile P (rev (x # xs))) = x # rev (dropWhile P (rev xs))"
    by (simp add: dropWhile_append)
  then show ?thesis by blast
qed

lemma strip_ends:
  assumes "strip s \<noteq> []"
  shows "\<not> isspace (hd (strip s))" and "\<not> isspace (last (strip s))"
proof -
  let ?t = "dropWhile isspace s"
  let ?u = "dropWhile isspace (rev ?t)"
  from assms have u: "?u \<noteq> []"
    by (simp add: strip_def)
  have "\<not> isspace (hd ?u)"
    using u by (rule hd_dropWhile)
  then show "\<not> isspace (last (strip s))"
    using u by (simp add: strip_def last_rev)
  obtain x xs where t: "?t = x # xs"
    using u by (cases ?t) auto
  then have x: "\<not> isspace x"
    using hd_dropWhile [of isspace s] by simp
  from rev_dropWhile_rev_Cons [of isspace x xs, OF x] t obtain ys where "strip s = x # ys"
    by (auto simp: strip_def)
  with x show "\<not> isspace (hd (strip s))"
    by simp
qed

lemma strip_strip: "strip (strip s) = strip s"
proof (cases "strip s = []")
  case True
  then show ?thesis by (simp add: strip_Nil)
next
  case False
  then show ?thesis
    using strip_ends [OF False] by (intro strip_no_change)
qed

section \<open>Compaction merges and keeps texts\<close>

lemma texts_nonempty_simps:
  "texts_nonempty []"
  "texts_nonempty (b # bs) \<longleftrightarrow> strip (text' b) \<noteq> [] \<and> texts_nonempty bs"
  "texts_nonempty (bs @ cs) \<longleftrightarrow> texts_nonempty bs \<and> texts_nonempty cs"
  by (simp_all add: texts_nonempty_def)

lemma adjacent_scena_snoc:
  "adjacent_scena (bs @ [b]) \<longleftrightarrow>
     adjacent_scena bs \<or> (bs \<noteq> [] \<and> character (last bs) = SCENA \<and> character b = SCENA)"
  by (induction bs rule: adjacent_scena.induct) auto

lemma adjacent_scena_relabel:
  "bs \<noteq> [] \<Longrightarrow> character b = character (last bs) \<Longrightarrow>
   adjacent_scena (butlast bs @ [b]) \<longleftrightarrow> adjacent_scena bs"
  by (induction bs rule: adjacent_scena.induct) auto

lemma compact_step_no_adjacent:
  assumes "\<not> adjacent_scena acc"
  shows "\<not> adjacent_scena (compact_step acc b)"
proof (cases "acc \<noteq> [] \<and> character b = SCENA \<and> character (last acc) = SCENA")
  case True
  let ?m = "(last acc)\<lparr>text' := strip (text' (last acc) @ [10] @ text' b)\<rparr>"
  from True have "adjacent_scena (butlast acc @ [?m]) \<longleftrightarrow> adjacent_scena acc"
    by (intro adjacent_scena_relabel) simp_all
  with assms True show ?thesis
    by (simp add: compact_step_def)
next
  case False
  with assms show ?thesis
    by (auto simp: compact_step_def adjacent_scena_snoc)
qed

lemma foldl_compact_no_adjacent:
  "\<not> adjacent_scena acc \<Longrightarrow> \<not> adjacent_scena (foldl compact_step acc bs)"
  by (induction bs arbitrary: acc) (simp_all add: compact_step_no_adjacent)

lemma compact_blocks_no_adjacent: "\<not> adjacent_scena (compact_blocks bs)"
  by (simp add: compact_blocks_def foldl_compact_no_adjacent)

lemma foldl_compact_fixed:
  "\<not> adjacent_scena (acc @ bs) \<Longrightarrow> foldl compact_step acc bs = acc @ bs"
proof (induction bs arbitrary: acc)
  case Nil
  then show ?case by simp
next
  case (Cons b bs)
  from Cons.prems have a: "\<not> adjacent_scena ((acc @ [b]) @ bs)"
    by simp
  have "\<not> adjacent_scena (acc @ [b])"
  proof
    assume "adjacent_scena (acc @ [b])"
    then have "adjacent_scena ((acc @ [b]) @ bs)"
      by (induction bs rule: rev_induct) (simp_all add: adjacent_scena_snoc flip: append_assoc)
    with a show False by blast
  qed
  then have "compact_step acc b = acc @ [b]"
    by (auto simp: compact_step_def adjacent_scena_snoc)
  with Cons.IH [OF a] show ?case
    by simp
qed

lemma compact_blocks_idem: "compact_blocks (compact_blocks bs) = compact_blocks bs"
  using foldl_compact_fixed [of "[]" "compact_blocks bs"] compact_blocks_no_adjacent [of bs]
  by (simp add: compact_blocks_def)

lemma compact_step_texts:
  "texts_nonempty acc \<Longrightarrow> strip (text' b) \<noteq> [] \<Longrightarrow> texts_nonempty (compact_step acc b)"
proof -
  assume acc: "texts_nonempty acc" and b: "strip (text' b) \<noteq> []"
  show ?thesis
  proof (cases "acc \<noteq> [] \<and> character b = SCENA \<and> character (last acc) = SCENA")
    case False
    with acc b show ?thesis
      by (auto simp: compact_step_def texts_nonempty_def)
  next
    case True
    then have "last acc \<in> set acc" by simp
    with acc have "strip (text' (last acc)) \<noteq> []"
      by (simp add: texts_nonempty_def list_all_iff)
    then have "\<exists>c \<in> set (text' (last acc) @ [10] @ text' b). \<not> isspace c"
      by (auto simp: strip_eq_Nil_iff)
    then have "strip (strip (text' (last acc) @ [10] @ text' b)) \<noteq> []"
      by (simp only: strip_strip strip_eq_Nil_iff) blast
    moreover from acc have "texts_nonempty (butlast acc)"
      by (auto simp: texts_nonempty_def list_all_iff dest: in_set_butlastD)
    ultimately show ?thesis
      using True by (simp add: compact_step_def texts_nonempty_def)
  qed
qed

lemma compact_blocks_texts:
  "texts_nonempty bs \<Longrightarrow> texts_nonempty (compact_blocks bs)"
proof -
  have "texts_nonempty acc \<Longrightarrow> texts_nonempty bs \<Longrightarrow> texts_nonempty (foldl compact_step acc bs)"
    for acc
    by (induction bs arbitrary: acc) (simp_all add: compact_step_texts texts_nonempty_simps)
  from this [of "[]"] show "texts_nonempty bs \<Longrightarrow> texts_nonempty (compact_blocks bs)"
    by (simp add: compact_blocks_def texts_nonempty_simps)
qed

section \<open>The segmenter emits no empty text\<close>

lemma flush_texts: "texts_nonempty (blocks st) \<Longrightarrow> texts_nonempty (blocks (flush st))"
  by (simp add: flush_def Let_def texts_nonempty_simps strip_strip)

lemma emit_scena_texts:
  "texts_nonempty (blocks st) \<Longrightarrow> strip line \<noteq> [] \<Longrightarrow> texts_nonempty (blocks (emit_scena line st))"
  by (simp add: emit_scena_def texts_nonempty_simps)

lemma process_line_texts:
  "texts_nonempty (blocks st) \<Longrightarrow> texts_nonempty (blocks (process_line U st raw))"
  by (simp add: process_line_def Let_def flush_texts emit_scena_texts strip_strip
           split: option.splits)

lemma segment_texts: "texts_nonempty (segment U t)"
proof -
  have "texts_nonempty (blocks st) \<Longrightarrow> texts_nonempty (blocks (foldl (process_line U) st ls))"
    for st ls
    by (induction ls arbitrary: st) (simp_all add: process_line_texts)
  from this [of "\<lparr>blocks = [], current_name = None, current_lines = []\<rparr>"]
  show ?thesis
    by (simp add: segment_def flush_texts texts_nonempty_simps)
qed

section \<open>Evaluating the model on concrete texts\<close>

lemma re_sub_from_Some:
  "re_first ml r adv p s = Some k \<Longrightarrow>
   re_sub_from ml r repl p s adv =
     repl @ re_sub_from ml r repl (rev (take k s) @ p) (drop k s) (k = 0)"
  by (subst re_sub_from.simps) simp

lemma re_sub_from_None_Nil:
  "re_first ml r adv p [] = None \<Longrightarrow> re_sub_from ml r repl p [] adv = []"
  by (subst re_sub_from.simps) simp

lemma re_sub_from_None_Cons:
  "re_first ml r adv p (c # cs) = None \<Longrightarrow>
   re_sub_from ml r repl p (c # cs) adv = c # re_sub_from ml r repl (c # p) cs False"
  by (subst re_sub_from.simps) simp

declare re_sub_from.simps [simp del]

declare rx_match.simps(5) [simp del]

lemmas pats = pat_stars_def pat_lead_underscores_def pat_trail_underscores_def pat_colon_def
  pat_blanks_def pat_paren_group_def pat_stage_dir_def speaker_pat_def pat_name_paren_def
  pat_spaces2_def who_first_def who_rest_def

lemmas ev = cps_def isspace_def strip_def startswith_def endswith_def replace_def
  is_linebreak_def splitlines_def upper_def upper_ascii_def re_at_def re_first_def re_sub_def
  re_match_def group_def truthy_def page_text_def SCENA_def
  re_sub_from_Some re_sub_from_None_Nil re_sub_from_None_Cons rx_match.simps(5)

lemma upper_ascii_cased:
  "ascii_cased U \<Longrightarrow> list_all (\<lambda>c. c < 128) s \<Longrightarrow> upper U s = upper upper_ascii s"
  by (induction s) (simp_all add: upper_def ascii_cased_def)

lemma heading_ascii_cased:
  "ascii_cased U \<Longrightarrow> list_all (\<lambda>c. c < 128) s \<Longrightarrow>
   is_section_heading U s = is_section_heading upper_ascii s"
  by (simp add: is_section_heading_def upper_ascii_cased)

section \<open>The branches of the loop body\<close>

lemma process_line_blank:
  "strip raw = [] \<Longrightarrow>
   process_line U st raw =
     (if truthy (current_name st) \<and> current_lines st \<noteq> [] \<and> last (current_lines st) \<noteq> []
      then st\<lparr>current_lines := current_lines st @ [[]]\<rparr> else st)"
  by (simp add: process_line_def)

lemma process_line_heading:
  "strip raw \<noteq> [] \<Longrightarrow> is_section_heading U (strip raw) \<Longrightarrow>
   process_line U st raw = emit_scena (strip raw) (flush st)"
  by (simp add: process_line_def)

lemma process_line_speaker:
  "strip raw \<noteq> [] \<Longrightarrow> \<not> is_section_heading U (strip raw) \<Longrightarrow>
   re_match speaker_pat (strip raw) = Some m \<Longrightarrow>
   process_line U st raw =
     (flush st)\<lparr>current_name :=
                   Some (re_sub False pat_spaces2 (cps '' '')
                           (strip (re_sub False pat_name_paren [] (group m ''who'')))),
                 current_lines :=
                   (if clean_stage_dirs_start (group m ''what'') \<noteq> []
                    then [clean_stage_dirs_start (group m ''what'')] else [])\<rparr>"
  by (simp add: process_line_def Let_def)

lemma process_line_parenthetical:
  "strip raw \<noteq> [] \<Longrightarrow> \<not> is_section_heading U (strip raw) \<Longrightarrow>
   re_match speaker_pat (strip raw) = None \<Longrightarrow>
   startswith (strip raw) (cps ''('') \<Longrightarrow> endswith (strip raw) (cps '')'') \<Longrightarrow>
   process_line U st raw = emit_scena (strip raw) (flush st)"
  by (simp add: process_line_def)

lemma process_line_continuation:
  "strip raw \<noteq> [] \<Longrightarrow> \<not> is_section_heading U (strip raw) \<Longrightarrow>
   re_match speaker_pat (strip raw) = None \<Longrightarrow>
   \<not> (startswith (strip raw) (cps ''('') \<and> endswith (strip raw) (cps '')'')) \<Longrightarrow>
   truthy (current_name st) \<Longrightarrow>
   process_line U st raw =
     (if clean_stage_dirs_start (strip raw) \<noteq> []
      then st\<lparr>current_lines := current_lines st @ [clean_stage_dirs_start (strip raw)]\<rparr>
      else st)"
  by (auto simp: process_line_def Let_def)

lemma process_line_stray:
  "strip raw \<noteq> [] \<Longrightarrow> \<not> is_section_heading U (strip raw) \<Longrightarrow>
   re_match speaker_pat (strip raw) = None \<Longrightarrow>
   \<not> (startswith (strip raw) (cps ''('') \<and> endswith (strip raw) (cps '')'')) \<Longrightarrow>
   \<not> truthy (current_name st) \<Longrightarrow>
   process_line U st raw = emit_scena (strip raw) st"
  by (auto simp: process_line_def Let_def)

section \<open>The scenarios of the specification\<close>

lemma ascii_cased_upper_ascii: "ascii_cased upper_ascii"
  by (simp add: ascii_cased_def)

lemma not_heading_eval:
  "ascii_cased U \<Longrightarrow> list_all (\<lambda>c. c < 128) s \<Longrightarrow> \<not> is_section_heading upper_ascii s \<Longrightarrow>
   \<not> is_section_heading U s"
  by (simp add: heading_ascii_cased)

lemma heading_eval:
  "ascii_cased U \<Longrightarrow> list_all (\<lambda>c. c < 128) s \<Longrightarrow> is_section_heading upper_ascii s \<Longrightarrow>
   is_section_heading U s"
  by (simp add: heading_ascii_cased)

lemma scenario3:
  assumes U: "ascii_cased U"
  shows "parse_script_from_pdf U [Some (cps ''SCENA 1''), Some (cps ''(Buio in sala)'')]
   = [\<lparr>character = SCENA, text' = cps ''SCENA 1'' @ [10] @ cps ''(Buio in sala)''\<rparr>]"
proof -
  let ?a = "cps ''SCENA 1''" and ?b = "cps ''(Buio in sala)''"
  let ?s0 = "\<lparr>blocks = [], current_name = None, current_lines = []\<rparr>"
  have pre: "preclean_text (?a @ [10] @ ?b) = ?a @ [10] @ ?b"
    apply (simp only: preclean_text_def Let_def)
    apply (simp add: pats ev)
    done
  have sl: "splitlines (?a @ [10] @ ?b) = [?a, ?b]"
    by (simp add: ev)
  have sa: "strip ?a = ?a" and sb: "strip ?b = ?b"
    by (simp_all add: ev)
  have na: "?a \<noteq> []" and nb: "?b \<noteq> []"
    by (simp_all add: cps_def)
  have ha: "is_section_heading U ?a"
    apply (rule heading_eval [OF U])
     apply (simp add: cps_def)
    apply (simp only: is_section_heading_def Let_def)
    apply (simp add: ev)
    done
  have hb: "\<not> is_section_heading U ?b"
    apply (rule not_heading_eval [OF U])
     apply (simp add: cps_def)
    apply (simp only: is_section_heading_def Let_def)
    apply (simp add: ev)
    done
  have mb: "re_match speaker_pat ?b = None"
    by (simp add: pats ev)
  have pb: "startswith ?b (cps ''('')" "endswith ?b (cps '')'')"
    by (simp_all add: ev)
  have fl: "flush ?s0 = ?s0"
    by (simp add: flush_def truthy_def)
  have l1: "process_line U ?s0 ?a = emit_scena ?a ?s0"
    using process_line_heading [of ?a U ?s0, unfolded sa, OF na ha] by (simp only: fl)
  have f2: "flush (emit_scena ?a ?s0) = emit_scena ?a ?s0"
    by (simp add: flush_def emit_scena_def truthy_def)
  have l2: "process_line U (emit_scena ?a ?s0) ?b = emit_scena ?b (emit_scena ?a ?s0)"
    using process_line_parenthetical [of ?b U "emit_scena ?a ?s0", unfolded sb, OF nb hb mb pb]
    by (simp only: f2)
  have "segment U (?a @ [10] @ ?b) = blocks (flush (emit_scena ?b (emit_scena ?a ?s0)))"
    by (simp only: segment_def sl foldl.simps l1 l2)
  also have "\<dots> = [\<lparr>character = SCENA, text' = ?a\<rparr>, \<lparr>character = SCENA, text' = ?b\<rparr>]"
    by (simp add: flush_def emit_scena_def truthy_def)
  finally have seg: "segment U (?a @ [10] @ ?b)
     = [\<lparr>character = SCENA, text' = ?a\<rparr>, \<lparr>character = SCENA, text' = ?b\<rparr>]" .
  have "strip (?a @ [10] @ ?b) = ?a @ [10] @ ?b"
    by (simp add: ev)
  then have cb: "compact_blocks [\<lparr>character = SCENA, text' = ?a\<rparr>, \<lparr>character = SCENA, text' = ?b\<rparr>]
     = [\<lparr>character = SCENA, text' = ?a @ [10] @ ?b\<rparr>]"
    by (simp add: compact_blocks_def compact_step_def)
  have j: "join [10] (map page_text [Some ?a, Some ?b]) = ?a @ [10] @ ?b"
    by (simp add: page_text_def)
  show ?thesis
    by (simp only: parse_script_from_pdf_def j pre seg cb)
qed

lemma flush_closed: "flush \<lparr>blocks = bs, current_name = None, current_lines = []\<rparr>
    = \<lparr>blocks = bs, current_name = None, current_lines = []\<rparr>"
  by (simp add: flush_def truthy_def)

lemma flush_open:
  "n \<noteq> [] \<Longrightarrow> ls \<noteq> [] \<Longrightarrow> strip (join [10] ls) = j \<Longrightarrow> j \<noteq> [] \<Longrightarrow>
   flush \<lparr>blocks = bs, current_name = Some n, current_lines = ls\<rparr>
     = \<lparr>blocks = bs @ [\<lparr>character = n, text' = j\<rparr>], current_name = None, current_lines = []\<rparr>"
  by (simp add: flush_def truthy_def Let_def)

lemma MARIO_nonempty: "cps ''MARIO'' \<noteq> []"
  by (simp add: cps_def)

lemma compact_blocks_single: "compact_blocks [b] = [b]"
  by (simp add: compact_blocks_def compact_step_def)

lemma compact_blocks_Nil: "compact_blocks [] = []"
  by (simp add: compact_blocks_def)

lemma who_MARIO:
  "re_sub False pat_spaces2 (cps '' '') (strip (re_sub False pat_name_paren [] (cps ''MARIO'')))
     = cps ''MARIO''"
  by (simp add: pats ev)

lemma scenario1:
  assumes U: "ascii_cased U"
  shows "parse_script_from_pdf U [Some (cps ''MARIO: Ciao a tutti'')]
   = [\<lparr>character = cps ''MARIO'', text' = cps ''Ciao a tutti''\<rparr>]"
proof -
  let ?l = "cps ''MARIO: Ciao a tutti''"
  let ?s0 = "\<lparr>blocks = [], current_name = None, current_lines = []\<rparr>"
  have pre: "preclean_text ?l = ?l"
    apply (simp only: preclean_text_def Let_def)
    apply (simp add: pats ev)
    done
  have sl: "splitlines ?l = [?l]"
    by (simp add: ev)
  have st: "strip ?l = ?l"
    by (simp add: ev)
  have ne: "?l \<noteq> []"
    by (simp add: cps_def)
  have nh: "\<not> is_section_heading U ?l"
    apply (rule not_heading_eval [OF U])
     apply (simp add: cps_def)
    apply (simp only: is_section_heading_def Let_def)
    apply (simp add: ev)
    done
  have m: "re_match speaker_pat ?l
     = Some \<lparr>prev = rev ?l, rest = [],
             caps = [(''what'', cps ''Ciao a tutti''), (''who'', cps ''MARIO'')]\<rparr>"
    by (simp add: pats ev)
  have cl: "clean_stage_dirs_start (cps ''Ciao a tutti'') = cps ''Ciao a tutti''"
    by (simp add: clean_stage_dirs_start_def pats ev)
  have cn: "cps ''Ciao a tutti'' \<noteq> []"
    by (simp add: cps_def)
  have pl: "process_line U ?s0 ?l
     = \<lparr>blocks = [], current_name = Some (cps ''MARIO''), current_lines = [cps ''Ciao a tutti'']\<rparr>"
    using process_line_speaker [of ?l U _ ?s0, unfolded st, OF ne nh m]
    by (simp add: group_def cl cn who_MARIO flush_closed)
  have jn: "strip (join [10] [cps ''Ciao a tutti'']) = cps ''Ciao a tutti''"
    by (simp add: ev)
  have "segment U ?l = blocks (flush \<lparr>blocks = [], current_name = Some (cps ''MARIO''),
                                      current_lines = [cps ''Ciao a tutti'']\<rparr>)"
    by (simp only: segment_def sl foldl.simps pl)
  also have "\<dots> = [\<lparr>character = cps ''MARIO'', text' = cps ''Ciao a tutti''\<rparr>]"
    by (simp add: flush_open [OF MARIO_nonempty _ jn cn])
  finally have seg: "segment U ?l = [\<lparr>character = cps ''MARIO'', text' = cps ''Ciao a tutti''\<rparr>]" .
  have j: "join [10] (map page_text [Some ?l]) = ?l"
    by (simp add: page_text_def)
  show ?thesis
    by (simp only: parse_script_from_pdf_def j pre seg compact_blocks_single)
qed

lemma scenario2:
  assumes U: "ascii_cased U"
  shows "parse_script_from_pdf U [Some (cps ''MARIO: (sorridendo) Ciao'')]
   = [\<lparr>character = cps ''MARIO'', text' = cps ''Ciao''\<rparr>]"
proof -
  let ?l = "cps ''MARIO: (sorridendo) Ciao''"
  let ?s0 = "\<lparr>blocks = [], current_name = None, current_lines = []\<rparr>"
  have pre: "preclean_text ?l = ?l"
    apply (simp only: preclean_text_def Let_def)
    apply (simp add: pats ev)
    done
  have sl: "splitlines ?l = [?l]"
    by (simp add: ev)
  have st: "strip ?l = ?l"
    by (simp add: ev)
  have ne: "?l \<noteq> []"
    by (simp add: cps_def)
  have nh: "\<not> is_section_heading U ?l"
    apply (rule not_heading_eval [OF U])
     apply (simp add: cps_def)
    apply (simp only: is_section_heading_def Let_def)
    apply (simp add: ev)
    done
  have m: "re_match speaker_pat ?l
     = Some \<lparr>prev = rev ?l, rest = [],
             caps = [(''what'', cps ''(sorridendo) Ciao''), (''who'', cps ''MARIO'')]\<rparr>"
    by (simp add: pats ev)
  have cl: "clean_stage_dirs_start (cps ''(sorridendo) Ciao'') = cps ''Ciao''"
    by (simp add: clean_stage_dirs_start_def pats ev)
  have cn: "cps ''Ciao'' \<noteq> []"
    by (simp add: cps_def)
  have pl: "process_line U ?s0 ?l
     = \<lparr>blocks = [], current_name = Some (cps ''MARIO''), current_lines = [cps ''Ciao'']\<rparr>"
    using process_line_speaker [of ?l U _ ?s0, unfolded st, OF ne nh m]
    by (simp add: group_def cl cn who_MARIO flush_closed)
  have jn: "strip (join [10] [cps ''Ciao'']) = cps ''Ciao''"
    by (simp add: ev)
  have "segment U ?l = blocks (flush \<lparr>blocks = [], current_name = Some (cps ''MARIO''),
                                      current_lines = [cps ''Ciao'']\<rparr>)"
    by (simp only: segment_def sl foldl.simps pl)
  also have "\<dots> = [\<lparr>character = cps ''MARIO'', text' = cps ''Ciao''\<rparr>]"
    by (simp add: flush_open [OF MARIO_nonempty _ jn cn])
  finally have seg: "segment U ?l = [\<lparr>character = cps ''MARIO'', text' = cps ''Ciao''\<rparr>]" .
  have j: "join [10] (map page_text [Some ?l]) = ?l"
    by (simp add: page_text_def)
  show ?thesis
    by (simp only: parse_script_from_pdf_def j pre seg compact_blocks_single)
qed

lemma scenario_ride:
  assumes U: "ascii_cased U"
  shows "parse_script_from_pdf U [Some (cps ''MARIO: (ride)'')] = []"
proof -
  let ?l = "cps ''MARIO: (ride)''"
  let ?s0 = "\<lparr>blocks = [], current_name = None, current_lines = []\<rparr>"
  have pre: "preclean_text ?l = ?l"
    apply (simp only: preclean_text_def Let_def)
    apply (simp add: pats ev)
    done
  have sl: "splitlines ?l = [?l]"
    by (simp add: ev)
  have st: "strip ?l = ?l"
    by (simp add: ev)
  have ne: "?l \<noteq> []"
    by (simp add: cps_def)
  have nh: "\<not> is_section_heading U ?l"
    apply (rule not_heading_eval [OF U])
     apply (simp add: cps_def)
    apply (simp only: is_section_heading_def Let_def)
    apply (simp add: ev)
    done
  have m: "re_match speaker_pat ?l
     = Some \<lparr>prev = rev ?l, rest = [],
             caps = [(''what'', cps ''(ride)''), (''who'', cps ''MARIO'')]\<rparr>"
    by (simp add: pats ev)
  have cl: "clean_stage_dirs_start (cps ''(ride)'') = []"
    by (simp add: clean_stage_dirs_start_def pats ev)
  have pl: "process_line U ?s0 ?l
     = \<lparr>blocks = [], current_name = Some (cps ''MARIO''), current_lines = []\<rparr>"
    using process_line_speaker [of ?l U _ ?s0, unfolded st, OF ne nh m]
    by (simp add: group_def cl who_MARIO flush_closed)
  have "segment U ?l = blocks (flush \<lparr>blocks = [], current_name = Some (cps ''MARIO''),
                                      current_lines = []\<rparr>)"
    by (simp only: segment_def sl foldl.simps pl)
  also have "\<dots> = []"
    by (simp add: flush_def)
  finally have seg: "segment U ?l = []" .
  have j: "join [10] (map page_text [Some ?l]) = ?l"
    by (simp add: page_text_def)
  show ?thesis
    by (simp only: parse_script_from_pdf_def j pre seg compact_blocks_Nil)
qed

lemma scenario5:
  assumes U: "ascii_cased U"
  shows "parse_script_from_pdf U [Some (cps ''stray text'')]
   = [\<lparr>character = SCENA, text' = cps ''stray text''\<rparr>]"
proof -
  let ?l = "cps ''stray text''"
  let ?s0 = "\<lparr>blocks = [], current_name = None, current_lines = []\<rparr>"
  have pre: "preclean_text ?l = ?l"
    apply (simp only: preclean_text_def Let_def)
    apply (simp add: pats ev)
    done
  have sl: "splitlines ?l = [?l]"
    by (simp add: ev)
  have st: "strip ?l = ?l"
    by (simp add: ev)
  have ne: "?l \<noteq> []"
    by (simp add: cps_def)
  have nh: "\<not> is_section_heading U ?l"
    apply (rule not_heading_eval [OF U])
     apply (simp add: cps_def)
    apply (simp only: is_section_heading_def Let_def)
    apply (simp add: ev)
    done
  have m: "re_match speaker_pat ?l = None"
    by (simp add: pats ev)
  have np: "\<not> (startswith ?l (cps ''('') \<and> endswith ?l (cps '')''))"
    by (simp add: ev)
  have nt: "\<not> truthy (current_name ?s0)"
    by (simp add: truthy_def)
  have pl: "process_line U ?s0 ?l = emit_scena ?l ?s0"
    using process_line_stray [of ?l U ?s0, unfolded st, OF ne nh m np nt] .
  have "segment U ?l = blocks (flush (emit_scena ?l ?s0))"
    by (simp only: segment_def sl foldl.simps pl)
  also have "\<dots> = [\<lparr>character = SCENA, text' = ?l\<rparr>]"
    by (simp add: flush_def emit_scena_def truthy_def)
  finally have seg: "segment U ?l = [\<lparr>character = SCENA, text' = ?l\<rparr>]" .
  have j: "join [10] (map page_text [Some ?l]) = ?l"
    by (simp add: page_text_def)
  show ?thesis
    by (simp only: parse_script_from_pdf_def j pre seg compact_blocks_single)
qed

lemma scenario4:
  assumes U: "ascii_cased U"
  shows "parse_script_from_pdf U [Some (cps ''MARIO: Ciao'' @ [10, 10] @ cps ''come va?'')]
   = [\<lparr>character = cps ''MARIO'', text' = cps ''Ciao'' @ [10, 10] @ cps ''come va?''\<rparr>]"
proof -
  let ?a = "cps ''MARIO: Ciao''" and ?b = "cps ''come va?''"
  let ?t = "?a @ [10, 10] @ ?b"
  let ?s0 = "\<lparr>blocks = [], current_name = None, current_lines = []\<rparr>"
  let ?s1 = "\<lparr>blocks = [], current_name = Some (cps ''MARIO''), current_lines = [cps ''Ciao'']\<rparr>"
  let ?s2 = "\<lparr>blocks = [], current_name = Some (cps ''MARIO''), current_lines = [cps ''Ciao'', []]\<rparr>"
  let ?s3 = "\<lparr>blocks = [], current_name = Some (cps ''MARIO''),
             current_lines = [cps ''Ciao'', [], cps ''come va?'']\<rparr>"
  have pre: "preclean_text ?t = ?t"
    apply (simp only: preclean_text_def Let_def)
    apply (simp add: pats ev)
    done
  have sl: "splitlines ?t = [?a, [], ?b]"
    by (simp add: ev)
  have sa: "strip ?a = ?a" and sb: "strip ?b = ?b" and se: "strip [] = []"
    by (simp_all add: ev)
  have na: "?a \<noteq> []" and nb: "?b \<noteq> []" and nc: "cps ''Ciao'' \<noteq> []"
    by (simp_all add: cps_def)
  have ha: "\<not> is_section_heading U ?a"
    apply (rule not_heading_eval [OF U])
     apply (simp add: cps_def)
    apply (simp only: is_section_heading_def Let_def)
    apply (simp add: ev)
    done
  have hb: "\<not> is_section_heading U ?b"
    apply (rule not_heading_eval [OF U])
     apply (simp add: cps_def)
    apply (simp only: is_section_heading_def Let_def)
    apply (simp add: ev)
    done
  have ma: "re_match speaker_pat ?a
     = Some \<lparr>prev = rev ?a, rest = [], caps = [(''what'', cps ''Ciao''), (''who'', cps ''MARIO'')]\<rparr>"
    by (simp add: pats ev)
  have mb: "re_match speaker_pat ?b = None"
    by (simp add: pats ev)
  have ca: "clean_stage_dirs_start (cps ''Ciao'') = cps ''Ciao''"
    by (simp add: clean_stage_dirs_start_def pats ev)
  have cb: "clean_stage_dirs_start ?b = ?b"
    by (simp add: clean_stage_dirs_start_def pats ev)
  have np: "\<not> (startswith ?b (cps ''('') \<and> endswith ?b (cps '')''))"
    by (simp add: ev)
  have l1: "process_line U ?s0 ?a = ?s1"
    using process_line_speaker [of ?a U _ ?s0, unfolded sa, OF na ha ma]
    by (simp add: group_def ca nc who_MARIO flush_closed)
  have l2: "process_line U ?s1 [] = ?s2"
    using process_line_blank [of "[]" U ?s1, OF se] nc by (simp add: truthy_def) (simp add: cps_def)
  have t2: "truthy (current_name ?s2)"
    by (simp add: truthy_def cps_def)
  have l3: "process_line U ?s2 ?b = ?s3"
    using process_line_continuation [of ?b U ?s2, unfolded sb, OF nb hb mb np t2]
    by (simp add: cb nb)
  have jn: "strip (join [10] [cps ''Ciao'', [], ?b]) = cps ''Ciao'' @ [10, 10] @ ?b"
    by (simp add: ev)
  have nj: "cps ''Ciao'' @ [10, 10] @ ?b \<noteq> []"
    by simp
  have "segment U ?t = blocks (flush ?s3)"
    by (simp only: segment_def sl foldl.simps l1 l2 l3)
  also have "\<dots> = [\<lparr>character = cps ''MARIO'', text' = cps ''Ciao'' @ [10, 10] @ ?b\<rparr>]"
    by (simp add: flush_open [OF MARIO_nonempty _ jn nj])
  finally have seg: "segment U ?t
     = [\<lparr>character = cps ''MARIO'', text' = cps ''Ciao'' @ [10, 10] @ ?b\<rparr>]" .
  have j: "join [10] (map page_text [Some ?t]) = ?t"
    by (simp add: page_text_def)
  show ?thesis
    by (simp only: parse_script_from_pdf_def j pre seg compact_blocks_single)
qed

section \<open>Prefixes, substrings and the reset by \<open>flush\<close>\<close>

lemma startswith_iff: "startswith s p \<longleftrightarrow> (\<exists>r. s = p @ r)"
proof
  assume "startswith s p"
  then have "s = p @ drop (length p) s"
    by (metis append_take_drop_id startswith_def)
  then show "\<exists>r. s = p @ r" ..
next
  assume "\<exists>r. s = p @ r"
  then show "startswith s p"
    by (auto simp: startswith_def)
qed

lemma contains_iff: "contains p s \<longleftrightarrow> (\<exists>a b. s = a @ p @ b)"
proof (induction s)
  case Nil
  then show ?case by auto
next
  case (Cons c cs)
  show ?case
  proof
    assume "contains p (c # cs)"
    then consider "startswith (c # cs) p" | "contains p cs"
      by auto
    then show "\<exists>a b. c # cs = a @ p @ b"
    proof cases
      case 1
      then obtain r where "c # cs = [] @ p @ r"
        by (auto simp: startswith_iff)
      then show ?thesis by blast
    next
      case 2
      with Cons.IH obtain a b where "cs = a @ p @ b"
        by blast
      then have "c # cs = (c # a) @ p @ b"
        by simp
      then show ?thesis by blast
    qed
  next
    assume "\<exists>a b. c # cs = a @ p @ b"
    then obtain a b where ab: "c # cs = a @ p @ b"
      by blast
    show "contains p (c # cs)"
    proof (cases a)
      case Nil
      with ab have "startswith (c # cs) p"
        by (auto simp: startswith_iff)
      then show ?thesis by simp
    next
      case (Cons x a')
      with ab have "cs = a' @ p @ b"
        by simp
      with Cons.IH have "contains p cs"
        by blast
      then show ?thesis by simp
    qed
  qed
qed

lemma flush_resets:
  "current_name (flush st) = None" "current_lines (flush st) = []"
  by (simp_all add: flush_def Let_def)

lemma heading_scena2: "is_section_heading upper_ascii (cps ''Scena 2'')"
  apply (simp only: is_section_heading_def Let_def)
  apply (simp add: ev)
  done

section \<open>The two files define the same functions\<close>

lemma patterns_old:
  "pat_stars_old = pat_stars" "pat_lead_underscores_old = pat_lead_underscores"
  "pat_trail_underscores_old = pat_trail_underscores" "pat_colon_old = pat_colon"
  "pat_blanks_old = pat_blanks" "pat_paren_group_old = pat_paren_group"
  "pat_stage_dir_old = pat_stage_dir" "speaker_pat_old = speaker_pat"
  "pat_name_paren_old = pat_name_paren" "pat_spaces2_old = pat_spaces2"
proof -
  have w: "who_first_old = who_first" "who_rest_old = who_rest"
    by (simp_all add: fun_eq_iff who_first_old_def who_first_def who_rest_old_def who_rest_def)
  show g: "pat_paren_group_old = pat_paren_group"
    by (simp add: pat_paren_group_old_def pat_paren_group_def)
  show "pat_stars_old = pat_stars"
    by (simp add: pat_stars_old_def pat_stars_def)
  show "pat_lead_underscores_old = pat_lead_underscores"
    by (simp add: pat_lead_underscores_old_def pat_lead_underscores_def)
  show "pat_trail_underscores_old = pat_trail_underscores"
    by (simp add: pat_trail_underscores_old_def pat_trail_underscores_def)
  show "pat_colon_old = pat_colon"
    by (simp add: pat_colon_old_def pat_colon_def)
  show "pat_blanks_old = pat_blanks"
    by (simp add: pat_blanks_old_def pat_blanks_def)
  show "pat_stage_dir_old = pat_stage_dir"
    by (simp add: pat_stage_dir_old_def pat_stage_dir_def g)
  show "speaker_pat_old = speaker_pat"
    by (simp add: speaker_pat_old_def speaker_pat_def g w)
  show "pat_name_paren_old = pat_name_paren"
    by (simp add: pat_name_paren_old_def pat_name_paren_def g)
  show "pat_spaces2_old = pat_spaces2"
    by (simp add: pat_spaces2_old_def pat_spaces2_def)
qed

lemma preclean_text_old_eq: "preclean_text_old t = preclean_text t"
  by (simp only: preclean_text_old_def preclean_text_def patterns_old)

lemma is_section_heading_old_eq: "is_section_heading_old U l = is_section_heading U l"
  by (simp only: is_section_heading_old_def is_section_heading_def)

lemma clean_stage_dirs_start_old_eq: "clean_stage_dirs_start_old s = clean_stage_dirs_start s"
  by (simp only: clean_stage_dirs_start_old_def clean_stage_dirs_start_def patterns_old)

lemma flush_old_eq: "flush_old st = flush st"
  by (simp only: flush_old_def flush_def)

lemma emit_scena_old_eq: "emit_scena_old l st = emit_scena l st"
  by (simp only: emit_scena_old_def emit_scena_def)

lemma process_line_old_eq: "process_line_old U = process_line U"
  by (intro ext)
     (simp only: process_line_old_def process_line_def patterns_old is_section_heading_old_eq
        clean_stage_dirs_start_old_eq flush_old_eq emit_scena_old_eq)

lemma compact_blocks_old_eq: "compact_blocks_old bs = compact_blocks bs"
proof -
  have "compact_step_old = compact_step"
    by (intro ext) (simp only: compact_step_old_def compact_step_def)
  then show ?thesis
    by (simp only: compact_blocks_old_def compact_blocks_def)
qed

lemma segment_old_eq: "segment_old U t = segment U t"
  by (simp only: segment_old_def segment_def process_line_old_eq flush_old_eq)

section \<open>What a match consumes, and newlines under substitution\<close>

lemma in_rx_match_Star:
  "st' \<in> set (rx_match ml (Star a) st) \<longleftrightarrow>
     st' = st \<or>
     (\<exists>st1 \<in> set (rx_match ml a st).
        length (rest st1) < length (rest st) \<and> st' \<in> set (rx_match ml (Star a) st1))"
  by (subst rx_match.simps(5)) (auto split: if_splits)






lemma re_at_SomeD:
  "re_at ml r adv p s = Some st' \<Longrightarrow> st' \<in> set (rx_match ml r \<lparr>prev = p, rest = s, caps = []\<rparr>)"
proof -
  assume "re_at ml r adv p s = Some st'"
  then obtain xs where
    "filter (\<lambda>st'. \<not> adv \<or> length (rest st') < length s)
            (rx_match ml r \<lparr>prev = p, rest = s, caps = []\<rparr>) = st' # xs"
    by (auto simp: re_at_def split: list.splits)
  then have "st' \<in> set (filter (\<lambda>st'. \<not> adv \<or> length (rest st') < length s)
                             (rx_match ml r \<lparr>prev = p, rest = s, caps = []\<rparr>))"
    by simp
  then show ?thesis by simp
qed




















section \<open>A match of the speaker pattern binds both groups\<close>

lemma rx_match_caps_grow:
  "st' \<in> set (rx_match ml r st) \<Longrightarrow> fst ` set (caps st) \<subseteq> fst ` set (caps st')"
proof (induction ml r st arbitrary: st' rule: rx_match.induct)
  case (1 ml P st)
  then show ?case
    by (cases "rest st") (auto split: if_splits)
next
  case (3 ml a b st)
  from "3.prems" obtain st1 where
    s1: "st1 \<in> set (rx_match ml a st)" and s2: "st' \<in> set (rx_match ml b st1)"
    by auto
  from "3.IH"(1) [OF s1] "3.IH"(2) [OF s1 s2] show ?case
    by blast
next
  case (5 ml a st)
  show ?case
  proof (cases "st' = st")
    case True
    then show ?thesis by simp
  next
    case False
    with "5.prems"(1) obtain st1 where
      s1: "st1 \<in> set (rx_match ml a st)" and lt: "length (rest st1) < length (rest st)"
      and s2: "st' \<in> set (rx_match ml (Star a) st1)"
      by (subst (asm) in_rx_match_Star) blast
    from "5.IH"(1) [OF s1] "5.IH"(2) [OF s1 lt s2] show ?thesis
      by blast
  qed
next
  case (8 ml n a st)
  from "8.prems" obtain st1 where
    s1: "st1 \<in> set (rx_match ml a st)" and
    e: "st' = st1\<lparr>caps := (n, take (length (rest st) - length (rest st1)) (rest st)) # caps st1\<rparr>"
    by auto
  from "8.IH" [OF s1] e show ?case
    by auto
next
  case (4 ml a b st)
  from "4.prems" "4.IH"(1) [of st'] "4.IH"(2) [of st'] show ?case
    by auto
qed (auto split: if_splits)

lemma rx_match_binds:
  "binds n r \<Longrightarrow> st' \<in> set (rx_match ml r st) \<Longrightarrow> n \<in> fst ` set (caps st')"
proof (induction r arbitrary: st st')
  case (Seq a b)
  from Seq.prems(2) obtain st1 where
    s1: "st1 \<in> set (rx_match ml a st)" and s2: "st' \<in> set (rx_match ml b st1)"
    by auto
  show ?case
  proof (cases "binds n a")
    case True
    with Seq.IH(1) s1 have "n \<in> fst ` set (caps st1)"
      by blast
    with rx_match_caps_grow [OF s2] show ?thesis
      by blast
  next
    case False
    with Seq.prems(1) have "binds n b" by simp
    with Seq.IH(2) s2 show ?thesis by blast
  qed
next
  case (Alt a b)
  then show ?case by auto
next
  case (Grp g a)
  from Grp.prems(2) obtain st1 where
    s1: "st1 \<in> set (rx_match ml a st)" and
    e: "st' = st1\<lparr>caps := (g, take (length (rest st) - length (rest st1)) (rest st)) # caps st1\<rparr>"
    by auto
  show ?case
  proof (cases "n = g")
    case True
    with e show ?thesis by simp
  next
    case False
    with Grp.prems(1) have "binds n a" by simp
    with Grp.IH s1 have "n \<in> fst ` set (caps st1)" by blast
    with e show ?thesis by simp
  qed
qed simp_all

lemma speaker_groups_bound:
  assumes "re_match speaker_pat s = Some m"
  shows "map_of (caps m) ''who'' \<noteq> None \<and> map_of (caps m) ''what'' \<noteq> None"
proof -
  from assms have "m \<in> set (rx_match False speaker_pat \<lparr>prev = [], rest = s, caps = []\<rparr>)"
    by (simp add: re_match_def re_at_SomeD)
  moreover have "binds ''who'' speaker_pat" "binds ''what'' speaker_pat"
    by (simp_all add: speaker_pat_def)
  ultimately have "''who'' \<in> fst ` set (caps m)" "''what'' \<in> fst ` set (caps m)"
    by (blast intro: rx_match_binds)+
  then show ?thesis
    by (simp add: map_of_eq_None_iff)
qed

section \<open>The first match of the stage-direction pattern\<close>
























section \<open>The claims\<close>




text \<open>
  C2. For every input, every block of the result of \<open>parse_script_from_pdf\<close> has a text
  that is not empty after stripping; a candidate block that has no lines, or whose joined
  lines strip to nothing, is dropped by \<open>flush\<close>, which appends nothing for it.
\<close>

theorem no_empty_blocks:
  "texts_nonempty (parse_script_from_pdf U pages) \<and>
   (current_lines st = [] \<or> strip (join [10] (current_lines st)) = [] \<longrightarrow>
      blocks (flush st) = blocks st)"
  by (simp add: parse_script_from_pdf_def compact_blocks_texts segment_texts flush_def Let_def)

theorem no_empty_blocks_witness:
  "parse_script_from_pdf upper_ascii [Some (cps ''MARIO: Ciao a tutti'')]
     = [\<lparr>character = cps ''MARIO'', text' = cps ''Ciao a tutti''\<rparr>] \<and>
   texts_nonempty (parse_script_from_pdf upper_ascii [Some (cps ''MARIO: Ciao a tutti'')]) \<and>
   current_lines \<lparr>blocks = [], current_name = Some (cps ''MARIO''), current_lines = []\<rparr> = [] \<and>
   blocks (flush \<lparr>blocks = [], current_name = Some (cps ''MARIO''), current_lines = []\<rparr>) = []"
  using no_empty_blocks [of upper_ascii "[Some (cps ''MARIO: Ciao a tutti'')]"
      "\<lparr>blocks = [], current_name = Some (cps ''MARIO''), current_lines = []\<rparr>"]
    scenario1 [OF ascii_cased_upper_ascii]
  by simp

text \<open>
  C3. For every input, no two neighbouring blocks of the result of
  \<open>parse_script_from_pdf\<close> both have the character \<open>SCENA\<close>: the compaction pass merges
  such neighbours, joining their texts with a newline.
\<close>

theorem sentinel_merge_invariant:
  "\<not> adjacent_scena (parse_script_from_pdf U pages) \<and>
   compact_blocks [\<lparr>character = SCENA, text' = a\<rparr>, \<lparr>character = SCENA, text' = b\<rparr>]
     = [\<lparr>character = SCENA, text' = strip (a @ [10] @ b)\<rparr>]"
  by (simp add: parse_script_from_pdf_def compact_blocks_no_adjacent)
     (simp add: compact_blocks_def compact_step_def)

theorem sentinel_merge_invariant_witness:
  "parse_script_from_pdf upper_ascii [Some (cps ''SCENA 1''), Some (cps ''(Buio in sala)'')]
     = [\<lparr>character = SCENA, text' = cps ''SCENA 1'' @ [10] @ cps ''(Buio in sala)''\<rparr>] \<and>
   \<not> adjacent_scena
       (parse_script_from_pdf upper_ascii [Some (cps ''SCENA 1''), Some (cps ''(Buio in sala)'')])"
  using sentinel_merge_invariant
      [of upper_ascii "[Some (cps ''SCENA 1''), Some (cps ''(Buio in sala)'')]"]
    scenario3 [OF ascii_cased_upper_ascii]
  by simp

text \<open>
  C4. The compaction pass is idempotent: for every block list, compacting the compacted
  list gives the compacted list again, and no merge is left to do in it.
\<close>

theorem compaction_idempotent:
  "compact_blocks (compact_blocks bs) = compact_blocks bs \<and>
   \<not> adjacent_scena (compact_blocks bs)"
  by (simp add: compact_blocks_idem compact_blocks_no_adjacent)

theorem compaction_idempotent_witness:
  "compact_blocks [\<lparr>character = SCENA, text' = cps ''a''\<rparr>, \<lparr>character = SCENA, text' = cps ''b''\<rparr>,
                   \<lparr>character = cps ''MARIO'', text' = cps ''c''\<rparr>]
     = [\<lparr>character = SCENA, text' = cps ''a'' @ [10] @ cps ''b''\<rparr>,
        \<lparr>character = cps ''MARIO'', text' = cps ''c''\<rparr>] \<and>
   compact_blocks [\<lparr>character = SCENA, text' = cps ''a'' @ [10] @ cps ''b''\<rparr>,
                   \<lparr>character = cps ''MARIO'', text' = cps ''c''\<rparr>]
     = [\<lparr>character = SCENA, text' = cps ''a'' @ [10] @ cps ''b''\<rparr>,
        \<lparr>character = cps ''MARIO'', text' = cps ''c''\<rparr>]"
proof -
  let ?bs = "[\<lparr>character = SCENA, text' = cps ''a''\<rparr>, \<lparr>character = SCENA, text' = cps ''b''\<rparr>,
              \<lparr>character = cps ''MARIO'', text' = cps ''c''\<rparr>]"
  have "strip (cps ''a'' @ [10] @ cps ''b'') = cps ''a'' @ [10] @ cps ''b''"
    by (simp add: ev)
  moreover have "cps ''MARIO'' \<noteq> SCENA"
    by (simp add: SCENA_def cps_def)
  ultimately have c: "compact_blocks ?bs
     = [\<lparr>character = SCENA, text' = cps ''a'' @ [10] @ cps ''b''\<rparr>,
        \<lparr>character = cps ''MARIO'', text' = cps ''c''\<rparr>]"
    by (simp add: compact_blocks_def compact_step_def)
  from compaction_idempotent [of ?bs] show ?thesis
    unfolding c by (simp add: c)
qed

text \<open>
  C5. A line is a section heading exactly when its upper-cased form starts with
  \<open>SCENA \<close> or contains \<open>PERSONAGGI\<close>, \<open>ANTIPASTO\<close>, \<open>PRIMI\<close>, \<open>DOLCI\<close> or
  \<open>CAFF\<close>; on a non-blank line whose stripped form is a heading the loop flushes the open
  block and appends at once a \<open>SCENA\<close> block whose text is the stripped line, leaving no
  block open.
\<close>

theorem heading_classification:
  "(is_section_heading U line \<longleftrightarrow>
      (\<exists>r. upper U line = cps ''SCENA '' @ r) \<or>
      (\<exists>a b. upper U line = a @ cps ''PERSONAGGI'' @ b) \<or>
      (\<exists>a b. upper U line = a @ cps ''ANTIPASTO'' @ b) \<or>
      (\<exists>a b. upper U line = a @ cps ''PRIMI'' @ b) \<or>
      (\<exists>a b. upper U line = a @ cps ''DOLCI'' @ b) \<or>
      (\<exists>a b. upper U line = a @ cps ''CAFF'' @ b)) \<and>
   (strip raw \<noteq> [] \<and> is_section_heading U (strip raw) \<longrightarrow>
      process_line U st raw =
        \<lparr>blocks = blocks (flush st) @ [\<lparr>character = SCENA, text' = strip raw\<rparr>],
         current_name = None, current_lines = []\<rparr>)"
proof -
  have "process_line U st raw =
        \<lparr>blocks = blocks (flush st) @ [\<lparr>character = SCENA, text' = strip raw\<rparr>],
         current_name = None, current_lines = []\<rparr>"
    if "strip raw \<noteq> []" "is_section_heading U (strip raw)"
    using process_line_heading [OF that, of st]
    by (simp add: emit_scena_def flush_resets)
  then show ?thesis
    by (simp only: is_section_heading_def Let_def startswith_iff contains_iff) blast
qed

theorem heading_classification_witness:
  "is_section_heading upper_ascii (cps ''Scena 2'') \<and>
   strip (cps ''  Scena 2 '') \<noteq> [] \<and> is_section_heading upper_ascii (strip (cps ''  Scena 2 '')) \<and>
   process_line upper_ascii
       \<lparr>blocks = [], current_name = Some (cps ''MARIO''), current_lines = [cps ''Ciao'']\<rparr>
       (cps ''  Scena 2 '')
     = \<lparr>blocks = [\<lparr>character = cps ''MARIO'', text' = cps ''Ciao''\<rparr>,
                  \<lparr>character = SCENA, text' = cps ''Scena 2''\<rparr>],
        current_name = None, current_lines = []\<rparr>"
proof -
  let ?st = "\<lparr>blocks = [], current_name = Some (cps ''MARIO''), current_lines = [cps ''Ciao'']\<rparr>"
  have s: "strip (cps ''  Scena 2 '') = cps ''Scena 2''"
    by (simp add: ev)
  have n: "cps ''Scena 2'' \<noteq> []" and c: "cps ''Ciao'' \<noteq> []"
    by (simp_all add: cps_def)
  have j: "strip (join [10] [cps ''Ciao'']) = cps ''Ciao''"
    by (simp add: ev)
  have f: "blocks (flush ?st) = [\<lparr>character = cps ''MARIO'', text' = cps ''Ciao''\<rparr>]"
    by (simp add: flush_open [OF MARIO_nonempty _ j c])
  from heading_classification [of upper_ascii "cps ''Scena 2''" "cps ''  Scena 2 ''" ?st]
  show ?thesis
    unfolding s f using heading_scena2 n by simp
qed



text \<open>
  C7. The text \<open>MARIO: Ciao\<close>, an empty line, \<open>come va?\<close> gives the one block of
  \<open>MARIO\<close> with the text \<open>Ciao\<close>, two newlines, \<open>come va?\<close> (for every case table that
  is right on ASCII); and a blank line appends one empty marker to the open block when
  the block has lines and its last line is not a marker, and changes nothing otherwise.
\<close>

theorem blank_line_paragraph_break:
  "(ascii_cased U \<longrightarrow>
      parse_script_from_pdf U [Some (cps ''MARIO: Ciao'' @ [10, 10] @ cps ''come va?'')]
        = [\<lparr>character = cps ''MARIO'', text' = cps ''Ciao'' @ [10, 10] @ cps ''come va?''\<rparr>]) \<and>
   (strip raw = [] \<longrightarrow>
      process_line U st raw =
        (if truthy (current_name st) \<and> current_lines st \<noteq> [] \<and> last (current_lines st) \<noteq> []
         then st\<lparr>current_lines := current_lines st @ [[]]\<rparr>
         else st))"
  using scenario4 [of U] process_line_blank [of raw U st] by blast

theorem blank_line_paragraph_break_witness:
  "ascii_cased upper_ascii \<and>
   parse_script_from_pdf upper_ascii [Some (cps ''MARIO: Ciao'' @ [10, 10] @ cps ''come va?'')]
     = [\<lparr>character = cps ''MARIO'', text' = cps ''Ciao'' @ [10, 10] @ cps ''come va?''\<rparr>] \<and>
   strip (cps ''  '') = [] \<and>
   process_line upper_ascii
       \<lparr>blocks = [], current_name = Some (cps ''MARIO''), current_lines = [cps ''Ciao'']\<rparr> (cps ''  '')
     = \<lparr>blocks = [], current_name = Some (cps ''MARIO''), current_lines = [cps ''Ciao'', []]\<rparr> \<and>
   process_line upper_ascii
       \<lparr>blocks = [], current_name = Some (cps ''MARIO''), current_lines = [cps ''Ciao'', []]\<rparr> (cps ''  '')
     = \<lparr>blocks = [], current_name = Some (cps ''MARIO''), current_lines = [cps ''Ciao'', []]\<rparr>"
proof -
  have s: "strip (cps ''  '') = []"
    by (simp add: ev)
  have t: "truthy (Some (cps ''MARIO''))" and c: "cps ''Ciao'' \<noteq> []"
    by (simp_all add: truthy_def cps_def)
  from blank_line_paragraph_break
         [of upper_ascii "cps ''  ''"
             "\<lparr>blocks = [], current_name = Some (cps ''MARIO''), current_lines = [cps ''Ciao'']\<rparr>"]
       blank_line_paragraph_break
         [of upper_ascii "cps ''  ''"
             "\<lparr>blocks = [], current_name = Some (cps ''MARIO''), current_lines = [cps ''Ciao'', []]\<rparr>"]
  show ?thesis
    using ascii_cased_upper_ascii s t c by simp
qed

text \<open>
  C8. A non-blank line that is no heading, no speaker line and no parenthetical line,
  read while no block is open, makes the loop append a \<open>SCENA\<close> block whose text is the
  stripped line and change nothing else; the one-line text \<open>stray text\<close> is parsed to
  that single block.
\<close>

theorem stray_line_sentinel:
  "(strip raw \<noteq> [] \<and> \<not> is_section_heading U (strip raw) \<and>
    re_match speaker_pat (strip raw) = None \<and>
    \<not> (startswith (strip raw) (cps ''('') \<and> endswith (strip raw) (cps '')'')) \<and>
    \<not> truthy (current_name st) \<longrightarrow>
      process_line U st raw = st\<lparr>blocks := blocks st @ [\<lparr>character = SCENA, text' = strip raw\<rparr>]\<rparr>) \<and>
   (ascii_cased U \<longrightarrow>
      parse_script_from_pdf U [Some (cps ''stray text'')]
        = [\<lparr>character = SCENA, text' = cps ''stray text''\<rparr>])"
  using process_line_stray [of raw U st] scenario5 [of U]
  by (simp add: emit_scena_def)

theorem stray_line_sentinel_witness:
  "strip (cps '' stray text'') \<noteq> [] \<and> \<not> is_section_heading upper_ascii (strip (cps '' stray text'')) \<and>
   re_match speaker_pat (strip (cps '' stray text'')) = None \<and>
   \<not> (startswith (strip (cps '' stray text'')) (cps ''('') \<and>
      endswith (strip (cps '' stray text'')) (cps '')'')) \<and>
   \<not> truthy (current_name \<lparr>blocks = [], current_name = None, current_lines = []\<rparr>) \<and>
   process_line upper_ascii \<lparr>blocks = [], current_name = None, current_lines = []\<rparr>
       (cps '' stray text'')
     = \<lparr>blocks = [\<lparr>character = SCENA, text' = cps ''stray text''\<rparr>],
        current_name = None, current_lines = []\<rparr> \<and>
   ascii_cased upper_ascii \<and>
   parse_script_from_pdf upper_ascii [Some (cps ''stray text'')]
     = [\<lparr>character = SCENA, text' = cps ''stray text''\<rparr>]"
proof -
  let ?l = "cps ''stray text''"
  have s: "strip (cps '' stray text'') = ?l"
    by (simp add: ev)
  have ne: "?l \<noteq> []"
    by (simp add: cps_def)
  have nh: "\<not> is_section_heading upper_ascii ?l"
    apply (simp only: is_section_heading_def Let_def)
    apply (simp add: ev)
    done
  have m: "re_match speaker_pat ?l = None"
    by (simp add: pats ev)
  have np: "\<not> (startswith ?l (cps ''('') \<and> endswith ?l (cps '')''))"
    by (simp add: ev)
  from stray_line_sentinel
         [of "cps '' stray text''" upper_ascii "\<lparr>blocks = [], current_name = None, current_lines = []\<rparr>"]
  show ?thesis
    unfolding s using ne nh m np ascii_cased_upper_ascii by (simp add: truthy_def)
qed

text \<open>
  C9. The one-line text \<open>MARIO: (ride)\<close> is parsed to no block at all; in general a
  speaker line whose remainder is empty after the stage direction is removed opens a
  block without lines, and flushing right after it appends nothing beyond what flushing
  before it appends.
\<close>

theorem speaker_without_text_emits_nothing:
  "(ascii_cased U \<longrightarrow> parse_script_from_pdf U [Some (cps ''MARIO: (ride)'')] = []) \<and>
   (strip raw \<noteq> [] \<and> \<not> is_section_heading U (strip raw) \<and>
    re_match speaker_pat (strip raw) = Some m \<and>
    clean_stage_dirs_start (group m ''what'') = [] \<longrightarrow>
      current_lines (process_line U st raw) = [] \<and>
      blocks (flush (process_line U st raw)) = blocks (flush st))"
proof -
  have "current_lines (process_line U st raw) = [] \<and>
        blocks (flush (process_line U st raw)) = blocks (flush st)"
    if "strip raw \<noteq> []" "\<not> is_section_heading U (strip raw)"
       "re_match speaker_pat (strip raw) = Some m"
       "clean_stage_dirs_start (group m ''what'') = []"
    using process_line_speaker [OF that(1,2,3), of st] that(4)
    by (simp add: flush_def Let_def)
  with scenario_ride [of U] show ?thesis
    by blast
qed

theorem speaker_without_text_emits_nothing_witness:
  "ascii_cased upper_ascii \<and>
   parse_script_from_pdf upper_ascii [Some (cps ''MARIO: (ride)'')] = [] \<and>
   strip (cps ''MARIO: (ride)'') \<noteq> [] \<and>
   \<not> is_section_heading upper_ascii (strip (cps ''MARIO: (ride)'')) \<and>
   re_match speaker_pat (strip (cps ''MARIO: (ride)''))
     = Some \<lparr>prev = rev (cps ''MARIO: (ride)''), rest = [],
             caps = [(''what'', cps ''(ride)''), (''who'', cps ''MARIO'')]\<rparr> \<and>
   clean_stage_dirs_start (cps ''(ride)'') = [] \<and>
   blocks (flush (process_line upper_ascii
                    \<lparr>blocks = [], current_name = None, current_lines = []\<rparr>
                    (cps ''MARIO: (ride)''))) = []"
proof -
  let ?l = "cps ''MARIO: (ride)''"
  let ?m = "\<lparr>prev = rev ?l, rest = [], caps = [(''what'', cps ''(ride)''), (''who'', cps ''MARIO'')]\<rparr>"
  have s: "strip ?l = ?l"
    by (simp add: ev)
  have ne: "?l \<noteq> []"
    by (simp add: cps_def)
  have nh: "\<not> is_section_heading upper_ascii ?l"
    apply (simp only: is_section_heading_def Let_def)
    apply (simp add: ev)
    done
  have m: "re_match speaker_pat ?l = Some ?m"
    by (simp add: pats ev)
  have g: "group ?m ''what'' = cps ''(ride)''"
    by (simp add: group_def)
  have cl: "clean_stage_dirs_start (cps ''(ride)'') = []"
    by (simp add: clean_stage_dirs_start_def pats ev)
  from speaker_without_text_emits_nothing
         [of upper_ascii ?l ?m "\<lparr>blocks = [], current_name = None, current_lines = []\<rparr>"]
  show ?thesis
    unfolding s g using ne nh m cl ascii_cased_upper_ascii by (simp add: flush_closed)
qed

text \<open>
  C10. The parsing functions of \<open>src/app_old.py\<close> and of \<open>src/app.py\<close> are
  extensionally equal: the normaliser, the heading test and the stage-direction cleaner
  agree on every argument, and for every list of page texts (and every case table) the
  two parsers return the same block list.
\<close>

theorem old_and_new_parser_agree:
  "preclean_text_old t = preclean_text t \<and>
   is_section_heading_old U l = is_section_heading U l \<and>
   clean_stage_dirs_start_old s = clean_stage_dirs_start s \<and>
   parse_script_from_pdf_old U pages = parse_script_from_pdf U pages"
  by (simp only: preclean_text_old_eq is_section_heading_old_eq clean_stage_dirs_start_old_eq
        parse_script_from_pdf_old_def parse_script_from_pdf_def segment_old_eq
        compact_blocks_old_eq simp_thms)

theorem old_and_new_parser_agree_witness:
  "parse_script_from_pdf_old upper_ascii [Some (cps ''MARIO: (sorridendo) Ciao'')]
     = [\<lparr>character = cps ''MARIO'', text' = cps ''Ciao''\<rparr>] \<and>
   parse_script_from_pdf upper_ascii [Some (cps ''MARIO: (sorridendo) Ciao'')]
     = [\<lparr>character = cps ''MARIO'', text' = cps ''Ciao''\<rparr>]"
  using old_and_new_parser_agree [of _ upper_ascii _ _ "[Some (cps ''MARIO: (sorridendo) Ciao'')]"]
    scenario2 [OF ascii_cased_upper_ascii]
  by simp

end
